theory Spec2Isabelle
  imports Complex_Main "HOL-Library.AList" "HOL-Library.Sublist" "HOL-Library.Char_ord"
    "HOL-Library.List_Lexorder"
begin

section \<open>Training-curve renderer (utils/plotting.py)\<close>

text \<open>
  Python values that the renderer handles: a metric sequence is a list of floats; the
  model takes the finite floats with their order, as \<^typ>\<open>real\<close> (only comparisons and
  equality are computed on them, and those are exact on finite floats; NaN is outside the
  model). \<open>history.history\<close> is a dict from key to sequence, and \<open>dict.get\<close> gives
  \<open>None\<close> for an absent key.
\<close>

datatype pyerror = TypeError | AttributeError | ValueError

type_synonym history = "string \<rightharpoonup> real list"

text \<open>\<open>len(x)\<close>: \<open>None\<close> has no length.\<close>

definition py_len :: "'a list option \<Rightarrow> pyerror + int" where
  "py_len x = (case x of None \<Rightarrow> Inl TypeError | Some xs \<Rightarrow> Inr (int (length xs)))"

text \<open>
  The builtin \<open>max\<close> and \<open>min\<close> over a list: the first element is the candidate, a later
  element replaces it only when it is strictly greater (smaller); an empty list raises
  \<open>ValueError\<close>.
\<close>

fun max_loop :: "real \<Rightarrow> real list \<Rightarrow> real" where
  "max_loop m [] = m"
| "max_loop m (x # xs) = max_loop (if x > m then x else m) xs"

fun min_loop :: "real \<Rightarrow> real list \<Rightarrow> real" where
  "min_loop m [] = m"
| "min_loop m (x # xs) = min_loop (if x < m then x else m) xs"

definition py_max :: "real list \<Rightarrow> pyerror + real" where
  "py_max xs = (case xs of [] \<Rightarrow> Inl ValueError | x # ys \<Rightarrow> Inr (max_loop x ys))"

definition py_min :: "real list \<Rightarrow> pyerror + real" where
  "py_min xs = (case xs of [] \<Rightarrow> Inl ValueError | x # ys \<Rightarrow> Inr (min_loop x ys))"

text \<open>\<open>list.index(v)\<close>: the position of the first element equal to \<open>v\<close>, \<open>ValueError\<close> when
  there is none.\<close>

fun py_index :: "real list \<Rightarrow> real \<Rightarrow> pyerror + nat" where
  "py_index [] v = Inl ValueError"
| "py_index (x # xs) v =
     (if x = v then Inr 0
      else (case py_index xs v of Inl e \<Rightarrow> Inl e | Inr i \<Rightarrow> Inr (Suc i)))"

text \<open>\<open>range(1, n + 1)\<close>.\<close>

definition py_range1 :: "int \<Rightarrow> int list" where
  "py_range1 n = [1..n]"

text \<open>
  The locals of \<open>plot_training_history_with_annotations\<close> after line 15. The four
  sequences stay optional: a \<open>None\<close> that no statement of lines 4 to 15 touches is carried
  on to the drawing calls.
\<close>

record best =
  acc :: "real list option"
  val_acc :: "real list option"
  loss :: "real list option"
  val_loss :: "real list option"
  epochs :: "int list"
  best_acc_epoch :: int
  best_acc :: real
  best_loss_epoch :: int
  best_loss :: real

text \<open>
  \<open>xs.index(f(xs)) + 1\<close> followed by \<open>f(xs)\<close> (lines 11 and 12, 14 and 15): the attribute
  \<open>index\<close> is looked up first, so \<open>None\<close> raises \<open>AttributeError\<close> before \<open>f\<close> is called.
\<close>

definition best_of :: "(real list \<Rightarrow> pyerror + real) \<Rightarrow> real list option \<Rightarrow> pyerror + (int \<times> real)" where
  "best_of f x =
     (case x of
        None \<Rightarrow> Inl AttributeError
      | Some xs \<Rightarrow>
          (case f xs of
             Inl e \<Rightarrow> Inl e
           | Inr m \<Rightarrow>
               (case py_index xs m of
                  Inl e \<Rightarrow> Inl e
                | Inr i \<Rightarrow>
                    (case f xs of Inl e \<Rightarrow> Inl e | Inr b \<Rightarrow> Inr (int i + 1, b)))))"

definition best_epochs :: "history \<Rightarrow> pyerror + best" where
  "best_epochs h =
     (let a = h ''accuracy''; va = h ''val_accuracy''; l = h ''loss''; vl = h ''val_loss''
      in case py_len a of
           Inl e \<Rightarrow> Inl e
         | Inr n \<Rightarrow>
             (case best_of py_max va of
                Inl e \<Rightarrow> Inl e
              | Inr (ea, ba) \<Rightarrow>
                  (case best_of py_min vl of
                     Inl e \<Rightarrow> Inl e
                   | Inr (el, bl) \<Rightarrow>
                       Inr \<lparr>acc = a, val_acc = va, loss = l, val_loss = vl,
                            epochs = py_range1 n,
                            best_acc_epoch = ea, best_acc = ba,
                            best_loss_epoch = el, best_loss = bl\<rparr>)))"

text \<open>
  The drawing calls of lines 17 to 48, each one an effect on the plotting library.
  \<open>Text x y dy s v e\<close> is \<open>plt.text(x, y + dy, ...)\<close> with the label made of the prefix
  \<open>s\<close>, the value \<open>v\<close> and the epoch \<open>e\<close>; the float sum and the float formatting are
  left unevaluated. \<open>Savefig p d\<close> is \<open>plt.savefig(p, dpi=d)\<close>.
\<close>

datatype effect =
    Figure
  | Subplot nat nat nat
  | Plot "int list" "real list option" string
  | Scatter int real
  | Text int real real string real int
  | Title string
  | Xlabel string
  | Ylabel string
  | Legend
  | Grid
  | Suptitle string
  | Tight_layout
  | Savefig string nat
  | Show

text \<open>\<open>f'{save_path}'\<close>: the string itself, and \<open>'None'\<close> for \<open>None\<close>.\<close>

definition py_format :: "string option \<Rightarrow> string" where
  "py_format p = (case p of None \<Rightarrow> ''None'' | Some s \<Rightarrow> s)"

definition drawing :: "best \<Rightarrow> string \<Rightarrow> string option \<Rightarrow> effect list" where
  "drawing b title save_path =
     [Figure,
      Subplot 1 2 1,
      Plot (epochs b) (acc b) ''Training Accuracy'',
      Plot (epochs b) (val_acc b) ''Validation Accuracy'',
      Scatter (best_acc_epoch b) (best_acc b),
      Text (best_acc_epoch b) (best_acc b) 0.01 ''Best: '' (best_acc b) (best_acc_epoch b),
      Title ''Accuracy Over Epochs'',
      Xlabel ''Epochs'',
      Ylabel ''Accuracy'',
      Legend,
      Grid,
      Subplot 1 2 2,
      Plot (epochs b) (loss b) ''Training Loss'',
      Plot (epochs b) (val_loss b) ''Validation Loss'',
      Scatter (best_loss_epoch b) (best_loss b),
      Text (best_loss_epoch b) (best_loss b) 0.1 ''Lowest: '' (best_loss b) (best_loss_epoch b),
      Title ''Loss Over Epochs'',
      Xlabel ''Epochs'',
      Ylabel ''Loss'',
      Legend,
      Grid,
      Suptitle title,
      Tight_layout,
      Savefig (py_format save_path) 300,
      Show]"

text \<open>
  The plotting library is not part of the repository. The one call that receives the
  possibly absent sequences is \<open>plt.plot\<close>, so whether \<open>plt.plot(x, y)\<close> raises is a
  parameter \<open>rejects\<close> of the model; every other call is taken to go through.
  \<open>matplotlib_rejects\<close> is the behaviour of matplotlib: \<open>ValueError\<close> for a \<open>None\<close> argument
  and for \<open>x\<close> and \<open>y\<close> of different lengths.
\<close>

type_synonym plot_check = "int list \<Rightarrow> real list option \<Rightarrow> pyerror option"

definition matplotlib_rejects :: plot_check where
  "matplotlib_rejects xs y =
     (case y of
        None \<Rightarrow> Some ValueError
      | Some ys \<Rightarrow> if length xs = length ys then None else Some ValueError)"

fun raises :: "plot_check \<Rightarrow> effect \<Rightarrow> pyerror option" where
  "raises rejects (Plot xs y l) = rejects xs y"
| "raises rejects e = None"

text \<open>Running the calls in order: the effects that took place, and the exception that
  stopped them, if any.\<close>

fun perform :: "plot_check \<Rightarrow> effect list \<Rightarrow> effect list \<times> pyerror option" where
  "perform rejects [] = ([], None)"
| "perform rejects (e # es) =
     (case raises rejects e of
        Some err \<Rightarrow> ([], Some err)
      | None \<Rightarrow> (case perform rejects es of (done, r) \<Rightarrow> (e # done, r)))"

definition default_title :: string where
  "default_title = ''Training and Validation Accuracy & Loss''"

definition plot_training_history_with_annotations ::
  "plot_check \<Rightarrow> history \<Rightarrow> string \<Rightarrow> string option \<Rightarrow> effect list \<times> pyerror option" where
  "plot_training_history_with_annotations rejects h title save_path =
     (case best_epochs h of
        Inl e \<Rightarrow> ([], Some e)
      | Inr b \<Rightarrow> perform rejects (drawing b title save_path))"

subsection \<open>Example histories\<close>

definition history_example :: history where
  "history_example =
     [''accuracy'' \<mapsto> [0.6, 0.8, 0.9], ''val_accuracy'' \<mapsto> [0.5, 0.9, 0.7],
      ''loss'' \<mapsto> [0.9, 0.4, 0.3], ''val_loss'' \<mapsto> [1.0, 0.2, 0.5]]"

definition history_ties :: history where
  "history_ties =
     [''accuracy'' \<mapsto> [0.6, 0.8, 0.9], ''val_accuracy'' \<mapsto> [0.5, 0.9, 0.9],
      ''loss'' \<mapsto> [0.9, 0.4, 0.3], ''val_loss'' \<mapsto> [0.3, 0.2, 0.2]]"

definition history_no_loss :: history where
  "history_no_loss =
     [''accuracy'' \<mapsto> [0.6, 0.8, 0.9], ''val_accuracy'' \<mapsto> [0.5, 0.9, 0.7],
      ''val_loss'' \<mapsto> [1.0, 0.2, 0.5]]"

section \<open>Marker-crop transform (scripts/preprocess\_data.py)\<close>

text \<open>
  Lines 39 to 43: the bounding rectangle \<open>(x, y, w, h)\<close> padded by \<open>pad = 10\<close> in an
  image of width \<open>W = img.shape[1]\<close> and height \<open>H = img.shape[0]\<close>. Python integers are
  unbounded, so \<^typ>\<open>int\<close>.
\<close>

definition pad :: int where
  "pad = 10"

definition pad_rect :: "int \<Rightarrow> int \<Rightarrow> int \<times> int \<times> int \<times> int \<Rightarrow> int \<times> int \<times> int \<times> int" where
  "pad_rect W H r =
     (case r of (x, y, w, h) \<Rightarrow>
        let x' = max 0 (x - pad);
            y' = max 0 (y - pad);
            w' = min (W - x') (w + 2 * pad);
            h' = min (H - y') (h + 2 * pad)
        in (x', y', w', h'))"

subsection \<open>Images and the image library\<close>

text \<open>
  A decoded image is a raster of rows of three-channel pixels, \<open>img.shape[0]\<close> its number
  of rows and \<open>img.shape[1]\<close> its number of columns (every image the library returns has
  at least one row, and rows of one length). A mask is a raster of single values, a
  contour a list of points.
\<close>

type_synonym pixel = "nat \<times> nat \<times> nat"
type_synonym image = "pixel list list"
type_synonym mask = "nat list list"
type_synonym contour = "(int \<times> int) list"
type_synonym rect = "int \<times> int \<times> int \<times> int"

text \<open>A location in the file system: the names that lead to it from the root.\<close>

type_synonym path = "string list"

definition shape0 :: "'a list list \<Rightarrow> int" where
  "shape0 img = int (length img)"

definition shape1 :: "'a list list \<Rightarrow> int" where
  "shape1 img = (case img of [] \<Rightarrow> 0 | r # _ \<Rightarrow> int (length r))"

definition lower_pink :: pixel where
  "lower_pink = (140, 50, 50)"

definition upper_pink :: pixel where
  "upper_pink = (170, 255, 255)"

text \<open>\<open>cv2.inRange\<close>: 255 where every channel lies between the bounds, both included,
  0 elsewhere.\<close>

definition in_bounds :: "pixel \<Rightarrow> pixel \<Rightarrow> pixel \<Rightarrow> bool" where
  "in_bounds lo hi p =
     (case lo of (l0, l1, l2) \<Rightarrow> case hi of (h0, h1, h2) \<Rightarrow> case p of (p0, p1, p2) \<Rightarrow>
        l0 \<le> p0 \<and> p0 \<le> h0 \<and> l1 \<le> p1 \<and> p1 \<le> h1 \<and> l2 \<le> p2 \<and> p2 \<le> h2)"

definition inRange :: "image \<Rightarrow> pixel \<Rightarrow> pixel \<Rightarrow> mask" where
  "inRange hsv lo hi = map (map (\<lambda>p. if in_bounds lo hi p then 255 else 0)) hsv"

text \<open>
  A slice \<open>xs[a:b]\<close>: a negative bound counts from the end, and both bounds are clipped
  to the list. \<open>img[y:y+h, x:x+w]\<close> slices the rows, then every row.
\<close>

definition py_slice :: "int \<Rightarrow> int \<Rightarrow> 'a list \<Rightarrow> 'a list" where
  "py_slice a b xs =
     (let n = int (length xs);
          a' = (if a < 0 then max 0 (a + n) else min a n);
          b' = (if b < 0 then max 0 (b + n) else min b n)
      in take (nat (b' - a')) (drop (nat a') xs))"

definition crop :: "image \<Rightarrow> int \<Rightarrow> int \<Rightarrow> int \<Rightarrow> int \<Rightarrow> image" where
  "crop img x y w h = map (py_slice x (x + w)) (py_slice y (y + h) img)"

text \<open>\<open>max(xs, key=k)\<close> over a non-empty list: the first element whose key is maximal.\<close>

fun max_key_loop :: "('a \<Rightarrow> real) \<Rightarrow> 'a \<Rightarrow> 'a list \<Rightarrow> 'a" where
  "max_key_loop k m [] = m"
| "max_key_loop k m (x # xs) = max_key_loop k (if k x > k m then x else m) xs"

text \<open>
  The image library is not part of the repository: its functions are the fields of a
  record that the model takes as a parameter. \<open>'c\<close> is the content of an image file.
  \<open>imread\<close> decodes a content, \<open>None\<close> when it cannot; \<open>imwrite\<close> encodes an image for the
  path it is to be written to, \<open>None\<close> when the library has no writer for that path, which
  it decides from the extension after the last dot of the whole path (\<open>cv2.imwrite\<close> then
  raises). The target size of \<open>resize\<close> is (width, height).
\<close>

record 'c cv2 =
  imread :: "'c \<Rightarrow> image option"
  cvtColor_BGR2HSV :: "image \<Rightarrow> image"
  findContours :: "mask \<Rightarrow> contour list"
  contourArea :: "contour \<Rightarrow> real"
  boundingRect :: "contour \<Rightarrow> rect"
  resize :: "image \<Rightarrow> nat \<times> nat \<Rightarrow> image"
  imwrite :: "path \<Rightarrow> image \<Rightarrow> 'c option"

datatype oserror = FileNotFoundError | NotADirectoryError | FileExistsError | CvError

text \<open>\<open>cv2.resize\<close> raises on an empty source and on an empty target size.\<close>

definition cv_resize :: "'c cv2 \<Rightarrow> image \<Rightarrow> nat \<times> nat \<Rightarrow> oserror + image" where
  "cv_resize cv img dsize =
     (if shape0 img = 0 \<or> shape1 img = 0 \<or> fst dsize = 0 \<or> snd dsize = 0 then Inl CvError
      else Inr (resize cv img dsize))"

text \<open>
  Lines 33 to 46, from the decoded image to the resized crop: \<open>Inr None\<close> when there is
  no contour, \<open>Inl\<close> when the library raises.
\<close>

definition marker_crop :: "'c cv2 \<Rightarrow> nat \<times> nat \<Rightarrow> image \<Rightarrow> oserror + image option" where
  "marker_crop cv target_size img =
     (let hsv = cvtColor_BGR2HSV cv img;
          mask = inRange hsv lower_pink upper_pink
      in case findContours cv mask of
           [] \<Rightarrow> Inr None
         | c # cs \<Rightarrow>
             (case pad_rect (shape1 img) (shape0 img)
                     (boundingRect cv (max_key_loop (contourArea cv) c cs)) of
                (x, y, w, h) \<Rightarrow>
                  (case cv_resize cv (crop img x y w h) target_size of
                     Inl e \<Rightarrow> Inl e
                   | Inr resized \<Rightarrow> Inr (Some resized))))"

subsection \<open>The file system\<close>

text \<open>
  A location is the list of the names that lead to it from the root, so that
  \<open>os.path.join(p, name)\<close>, for a name that \<open>os.listdir\<close> returned, is \<open>p @ [name]\<close>. The
  file system is an association list from locations to nodes, in the order in which the
  operating system lists them; the root is always a directory.
\<close>

datatype 'c node = Dir | File 'c

type_synonym 'c fs = "(path \<times> 'c node) list"

definition lookup :: "'c fs \<Rightarrow> path \<Rightarrow> 'c node option" where
  "lookup fs p = (if p = [] then Some Dir else map_of fs p)"

definition isdir :: "'c fs \<Rightarrow> path \<Rightarrow> bool" where
  "isdir fs p = (lookup fs p = Some Dir)"

definition entries :: "'c fs \<Rightarrow> path \<Rightarrow> string list" where
  "entries fs p = map last (filter (\<lambda>q. q \<noteq> [] \<and> butlast q = p) (map fst fs))"

definition listdir :: "'c fs \<Rightarrow> path \<Rightarrow> oserror + string list" where
  "listdir fs p =
     (case lookup fs p of
        None \<Rightarrow> Inl FileNotFoundError
      | Some (File c) \<Rightarrow> Inl NotADirectoryError
      | Some Dir \<Rightarrow> Inr (entries fs p))"

text \<open>
  \<open>os.makedirs(p, exist_ok=True)\<close> and \<open>Path(p).mkdir(parents=True, exist_ok=True)\<close>:
  every missing directory on the way to \<open>p\<close> is created; a file at \<open>p\<close> raises
  \<open>FileExistsError\<close>, a file on the way \<open>NotADirectoryError\<close>.
\<close>

fun mkdirs :: "path \<Rightarrow> string list \<Rightarrow> 'c fs \<Rightarrow> oserror + 'c fs" where
  "mkdirs base [] fs = Inr fs"
| "mkdirs base (n # ns) fs =
     (case lookup fs (base @ [n]) of
        Some Dir \<Rightarrow> mkdirs (base @ [n]) ns fs
      | Some (File c) \<Rightarrow> Inl (if ns = [] then FileExistsError else NotADirectoryError)
      | None \<Rightarrow> mkdirs (base @ [n]) ns (AList.update (base @ [n]) Dir fs))"

definition makedirs :: "path \<Rightarrow> 'c fs \<Rightarrow> oserror + 'c fs" where
  "makedirs p fs = mkdirs [] p fs"

text \<open>\<open>cv2.imread(path)\<close>: \<open>None\<close> for a missing file, a directory and a content that cannot
  be decoded.\<close>

definition cv_imread :: "'c cv2 \<Rightarrow> 'c fs \<Rightarrow> path \<Rightarrow> image option" where
  "cv_imread cv fs p = (case lookup fs p of Some (File c) \<Rightarrow> imread cv c | _ \<Rightarrow> None)"

text \<open>
  \<open>cv2.imwrite(os.path.join(dir, name), img)\<close>: raises when there is no writer for the
  joined path; writes nothing and returns \<open>False\<close>, which the script ignores, when the file
  cannot be opened (no such directory, or a directory of that name); otherwise creates or
  overwrites the file.
\<close>

definition cv_imwrite :: "'c cv2 \<Rightarrow> 'c fs \<Rightarrow> path \<Rightarrow> string \<Rightarrow> image \<Rightarrow> oserror + 'c fs" where
  "cv_imwrite cv fs dir name img =
     (case imwrite cv (dir @ [name]) img of
        None \<Rightarrow> Inl CvError
      | Some c \<Rightarrow>
          if isdir fs dir \<and> lookup fs (dir @ [name]) \<noteq> Some Dir
          then Inr (AList.update (dir @ [name]) (File c) fs)
          else Inr fs)"

subsection \<open>preprocess\_dataset\<close>

text \<open>The lines the script prints: line 30, line 51 and line 53.\<close>

datatype msg = Skip_unreadable path | Warning_no_pink_box path | Complete

record 'c world =
  files :: "'c fs"
  printed :: "msg list"

text \<open>The body of the inner loop, lines 26 to 51.\<close>

definition process_image ::
  "'c cv2 \<Rightarrow> nat \<times> nat \<Rightarrow> path \<Rightarrow> path \<Rightarrow> string \<Rightarrow> 'c world \<Rightarrow> oserror + 'c world" where
  "process_image cv target_size class_path output_class_path img_name st =
     (let img_path = class_path @ [img_name]
      in case cv_imread cv (files st) img_path of
           None \<Rightarrow> Inr (st\<lparr>printed := printed st @ [Skip_unreadable img_path]\<rparr>)
         | Some img \<Rightarrow>
             (case marker_crop cv target_size img of
                Inl e \<Rightarrow> Inl e
              | Inr None \<Rightarrow> Inr (st\<lparr>printed := printed st @ [Warning_no_pink_box img_path]\<rparr>)
              | Inr (Some resized) \<Rightarrow>
                  (case cv_imwrite cv (files st) output_class_path img_name resized of
                     Inl e \<Rightarrow> Inl e
                   | Inr fs' \<Rightarrow> Inr (st\<lparr>files := fs'\<rparr>))))"

fun process_images ::
  "'c cv2 \<Rightarrow> nat \<times> nat \<Rightarrow> path \<Rightarrow> path \<Rightarrow> string list \<Rightarrow> 'c world \<Rightarrow> oserror + 'c world" where
  "process_images cv target_size class_path output_class_path [] st = Inr st"
| "process_images cv target_size class_path output_class_path (img_name # rest) st =
     (case process_image cv target_size class_path output_class_path img_name st of
        Inl e \<Rightarrow> Inl e
      | Inr st' \<Rightarrow> process_images cv target_size class_path output_class_path rest st')"

text \<open>The body of the outer loop, lines 18 to 51.\<close>

definition process_class ::
  "'c cv2 \<Rightarrow> nat \<times> nat \<Rightarrow> path \<Rightarrow> path \<Rightarrow> string \<Rightarrow> 'c world \<Rightarrow> oserror + 'c world" where
  "process_class cv target_size data_dir output_dir class_name st =
     (let class_path = data_dir @ [class_name]
      in if \<not> isdir (files st) class_path then Inr st
         else
           (let output_class_path = output_dir @ [class_name]
            in case makedirs output_class_path (files st) of
                 Inl e \<Rightarrow> Inl e
               | Inr fs1 \<Rightarrow>
                   (case listdir fs1 class_path of
                      Inl e \<Rightarrow> Inl e
                    | Inr names \<Rightarrow>
                        process_images cv target_size class_path output_class_path names
                          (st\<lparr>files := fs1\<rparr>))))"

fun process_classes ::
  "'c cv2 \<Rightarrow> nat \<times> nat \<Rightarrow> path \<Rightarrow> path \<Rightarrow> string list \<Rightarrow> 'c world \<Rightarrow> oserror + 'c world" where
  "process_classes cv target_size data_dir output_dir [] st = Inr st"
| "process_classes cv target_size data_dir output_dir (class_name # rest) st =
     (case process_class cv target_size data_dir output_dir class_name st of
        Inl e \<Rightarrow> Inl e
      | Inr st' \<Rightarrow> process_classes cv target_size data_dir output_dir rest st')"


definition preprocess_dataset ::
  "'c cv2 \<Rightarrow> path \<Rightarrow> path \<Rightarrow> nat \<times> nat \<Rightarrow> 'c world \<Rightarrow> oserror + 'c world" where
  "preprocess_dataset cv data_dir output_dir target_size st =
     (case makedirs output_dir (files st) of
        Inl e \<Rightarrow> Inl e
      | Inr fs0 \<Rightarrow>
          (case listdir fs0 data_dir of
             Inl e \<Rightarrow> Inl e
           | Inr class_names \<Rightarrow>
               (case process_classes cv target_size data_dir output_dir (sort class_names)
                       (st\<lparr>files := fs0\<rparr>) of
                  Inl e \<Rightarrow> Inl e
                | Inr st' \<Rightarrow> Inr (st'\<lparr>printed := printed st' @ [Complete]\<rparr>))))"

subsection \<open>A small image library and data set\<close>

text \<open>
  An instance of the library record on which the model can be evaluated: a file holds
  its raster, an empty raster cannot be decoded, the colour conversion is the identity,
  the one contour of a mask is the list of its non-zero points, its area their number and
  its bounding rectangle the smallest one around them, resizing repeats the first pixel.
  As in \<open>cv2.imwrite\<close>, the extension of a path is the run of letters and digits after the
  last dot of the whole path, directory names included; this library has a writer for
  the extension \<open>png\<close> alone.
\<close>

definition joined :: "path \<Rightarrow> string" where
  "joined p = concat (map (\<lambda>n. CHR ''/'' # n) p)"

definition alnum :: "char \<Rightarrow> bool" where
  "alnum ch \<longleftrightarrow>
     (let k = (of_char ch :: nat)
      in (48 \<le> k \<and> k \<le> 57) \<or> (65 \<le> k \<and> k \<le> 90) \<or> (97 \<le> k \<and> k \<le> 122))"

definition extension :: "string \<Rightarrow> string" where
  "extension s =
     (if CHR ''.'' \<in> set s
      then takeWhile alnum (rev (takeWhile (\<lambda>ch. ch \<noteq> CHR ''.'') (rev s)))
      else [])"

definition points :: "mask \<Rightarrow> contour" where
  "points m =
     concat (map (\<lambda>(y, row). map (\<lambda>(x, v). (int x, int y))
                                 (filter (\<lambda>(x, v). v \<noteq> 0) (enumerate 0 row)))
                 (enumerate 0 m))"

definition bounding :: "contour \<Rightarrow> rect" where
  "bounding c =
     (case c of
        [] \<Rightarrow> (0, 0, 0, 0)
      | p # ps \<Rightarrow>
          (let x0 = fold min (map fst ps) (fst p); x1 = fold max (map fst ps) (fst p);
               y0 = fold min (map snd ps) (snd p); y1 = fold max (map snd ps) (snd p)
           in (x0, y0, x1 - x0 + 1, y1 - y0 + 1)))"

definition small_cv2 :: "image cv2" where
  "small_cv2 =
     \<lparr>imread = (\<lambda>c. if c = [] then None else Some c),
      cvtColor_BGR2HSV = (\<lambda>img. img),
      findContours = (\<lambda>m. if points m = [] then [] else [points m]),
      contourArea = (\<lambda>c. real (length c)),
      boundingRect = bounding,
      resize = (\<lambda>img dsize. replicate (snd dsize) (replicate (fst dsize) (hd (hd img)))),
      imwrite = (\<lambda>p img. if extension (joined p) = ''png'' then Some img else None)\<rparr>"

definition grey :: pixel where
  "grey = (0, 0, 128)"

definition pink :: pixel where
  "pink = (150, 200, 200)"

definition plain_image :: image where
  "plain_image = replicate 3 (replicate 4 grey)"

definition marked_image :: image where
  "marked_image = [[grey, grey, grey, grey], [grey, pink, pink, grey], [grey, grey, grey, grey]]"

definition dataset :: "image fs" where
  "dataset =
     [([''data''], Dir),
      ([''data'', ''A''], Dir),
      ([''data'', ''A'', ''a.png''], File marked_image),
      ([''data'', ''B''], Dir),
      ([''data'', ''B'', ''b.png''], File plain_image),
      ([''data'', ''B'', ''broken.png''], File []),
      ([''data'', ''README''], File [])]"

definition start :: "image world" where
  "start = \<lparr>files = dataset, printed = []\<rparr>"



subsection \<open>Notions used in the properties\<close>



text \<open>
  Two locations neither of which lies at or below the other, the part of the file system
  at and below a location as the script reads it, what the loop body writes for an image
  (\<open>None\<close> when it writes nothing), and how a file system may differ from an earlier one
  after steps of the script: the part below \<open>data_dir\<close> reads the same, directories stay,
  and a location \<open>output_dir/c/n\<close> is as before or holds what the image \<open>data_dir/c/n\<close> gives.
\<close>

definition apart :: "path \<Rightarrow> path \<Rightarrow> bool" where
  "apart p q \<longleftrightarrow> \<not> prefix p q \<and> \<not> prefix q p"

definition same_data :: "path \<Rightarrow> 'c fs \<Rightarrow> 'c fs \<Rightarrow> bool" where
  "same_data d fs fs' \<longleftrightarrow>
     (\<forall>p. prefix d p \<longrightarrow> lookup fs p = lookup fs' p \<and> entries fs p = entries fs' p)"

definition expected ::
  "'c cv2 \<Rightarrow> nat \<times> nat \<Rightarrow> 'c fs \<Rightarrow> path \<Rightarrow> path \<Rightarrow> string \<Rightarrow> 'c option" where
  "expected cv target_size fs class_path output_class_path img_name =
     (case cv_imread cv fs (class_path @ [img_name]) of
        None \<Rightarrow> None
      | Some img \<Rightarrow>
          (case marker_crop cv target_size img of
             Inr (Some resized) \<Rightarrow> imwrite cv (output_class_path @ [img_name]) resized
           | _ \<Rightarrow> None))"

definition evolves :: "'c cv2 \<Rightarrow> nat \<times> nat \<Rightarrow> path \<Rightarrow> path \<Rightarrow> 'c fs \<Rightarrow> 'c fs \<Rightarrow> bool" where
  "evolves cv target_size d o' fs fs' \<longleftrightarrow>
     same_data d fs fs'
   \<and> (\<forall>p. isdir fs p \<longrightarrow> isdir fs' p)
   \<and> (\<forall>c n. lookup fs' (o' @ [c, n]) = lookup fs (o' @ [c, n])
          \<or> (\<exists>b. expected cv target_size fs (d @ [c]) (o' @ [c]) n = Some b
                 \<and> lookup fs' (o' @ [c, n]) = Some (File b)))"

text \<open>The small data set after the script has run on it.\<close>

definition processed :: "image world" where
  "processed =
     \<lparr>files = dataset @
        [([''out''], Dir),
         ([''out'', ''A''], Dir),
         ([''out'', ''A'', ''a.png''], File [[grey, grey], [grey, grey]]),
         ([''out'', ''B''], Dir)],
      printed =
        [Warning_no_pink_box [''data'', ''B'', ''b.png''],
         Skip_unreadable [''data'', ''B'', ''broken.png''],
         Complete]\<rparr>"

section \<open>Properties of the renderer\<close>

lemma max_loop_Max: "max_loop m xs = Max (set (m # xs))"
proof (induction xs arbitrary: m)
  case Nil show ?case by simp
next
  case (Cons x xs)
  have "max_loop m (x # xs) = Max (insert (if x > m then x else m) (set xs))"
    using Cons.IH by simp
  also have "\<dots> = Max (insert m (insert x (set xs)))"
    by (cases "set xs = {}") (auto simp: max_def)
  finally show ?case by simp
qed

lemma min_loop_Min: "min_loop m xs = Min (set (m # xs))"
proof (induction xs arbitrary: m)
  case Nil show ?case by simp
next
  case (Cons x xs)
  have "min_loop m (x # xs) = Min (insert (if x < m then x else m) (set xs))"
    using Cons.IH by simp
  also have "\<dots> = Min (insert m (insert x (set xs)))"
    by (cases "set xs = {}") (auto simp: min_def)
  finally show ?case by simp
qed

lemma py_max_Max: "xs \<noteq> [] \<Longrightarrow> py_max xs = Inr (Max (set xs))"
  by (cases xs) (simp_all add: py_max_def max_loop_Max del: set_simps)

lemma py_min_Min: "xs \<noteq> [] \<Longrightarrow> py_min xs = Inr (Min (set xs))"
  by (cases xs) (simp_all add: py_min_def min_loop_Min del: set_simps)

lemma py_index_first:
  "v \<in> set xs \<Longrightarrow> \<exists>i. py_index xs v = Inr i \<and> i < length xs \<and> xs ! i = v \<and> (\<forall>j<i. xs ! j \<noteq> v)"
proof (induction xs)
  case Nil then show ?case by simp
next
  case (Cons x xs)
  show ?case
  proof (cases "x = v")
    case True then show ?thesis by simp
  next
    case False
    with Cons obtain i where i: "py_index xs v = Inr i" "i < length xs" "xs ! i = v" "\<forall>j<i. xs ! j \<noteq> v"
      by auto
    have "\<forall>j<Suc i. (x # xs) ! j \<noteq> v"
      using False i(4) by (auto simp: less_Suc_eq_0_disj)
    with False i show ?thesis by simp
  qed
qed

lemma best_of_max:
  assumes "xs \<noteq> []"
  shows "\<exists>i. best_of py_max (Some xs) = Inr (int i + 1, Max (set xs)) \<and> i < length xs
          \<and> xs ! i = Max (set xs) \<and> (\<forall>j<i. xs ! j < Max (set xs))"
proof -
  have "Max (set xs) \<in> set xs" using assms by (simp add: Max_in)
  then obtain i where i: "py_index xs (Max (set xs)) = Inr i" "i < length xs"
      "xs ! i = Max (set xs)" "\<forall>j<i. xs ! j \<noteq> Max (set xs)"
    using py_index_first by blast
  have "\<forall>j<i. xs ! j < Max (set xs)"
  proof (intro allI impI)
    fix j assume j: "j < i"
    then have "xs ! j \<in> set xs" using i(2) by simp
    then have "xs ! j \<le> Max (set xs)" by simp
    with i(4) j show "xs ! j < Max (set xs)" by (metis order_less_le)
  qed
  with i assms show ?thesis by (auto simp: best_of_def py_max_Max)
qed

lemma best_of_min:
  assumes "xs \<noteq> []"
  shows "\<exists>i. best_of py_min (Some xs) = Inr (int i + 1, Min (set xs)) \<and> i < length xs
          \<and> xs ! i = Min (set xs) \<and> (\<forall>j<i. Min (set xs) < xs ! j)"
proof -
  have "Min (set xs) \<in> set xs" using assms by (simp add: Min_in)
  then obtain i where i: "py_index xs (Min (set xs)) = Inr i" "i < length xs"
      "xs ! i = Min (set xs)" "\<forall>j<i. xs ! j \<noteq> Min (set xs)"
    using py_index_first by blast
  have "\<forall>j<i. Min (set xs) < xs ! j"
  proof (intro allI impI)
    fix j assume j: "j < i"
    then have "xs ! j \<in> set xs" using i(2) by simp
    then have "Min (set xs) \<le> xs ! j" by simp
    with i(4) j show "Min (set xs) < xs ! j" by (metis order_less_le)
  qed
  with i assms show ?thesis by (auto simp: best_of_def py_min_Min)
qed


lemma best_epochs_present:
  assumes "h ''accuracy'' = Some a" and "h ''val_accuracy'' = Some va" and "va \<noteq> []"
    and "h ''val_loss'' = Some vl" and "vl \<noteq> []"
  shows "\<exists>i k. best_epochs h =
            Inr \<lparr>acc = Some a, val_acc = Some va, loss = h ''loss'', val_loss = Some vl,
                 epochs = py_range1 (int (length a)),
                 best_acc_epoch = int i + 1, best_acc = Max (set va),
                 best_loss_epoch = int k + 1, best_loss = Min (set vl)\<rparr>
          \<and> i < length va \<and> va ! i = Max (set va) \<and> (\<forall>j<i. va ! j < Max (set va))
          \<and> k < length vl \<and> vl ! k = Min (set vl) \<and> (\<forall>j<k. Min (set vl) < vl ! j)"
proof -
  obtain i where i: "best_of py_max (Some va) = Inr (int i + 1, Max (set va))" "i < length va"
      "va ! i = Max (set va)" "\<forall>j<i. va ! j < Max (set va)"
    using best_of_max [OF assms(3)] by blast
  obtain k where k: "best_of py_min (Some vl) = Inr (int k + 1, Min (set vl))" "k < length vl"
      "vl ! k = Min (set vl)" "\<forall>j<k. Min (set vl) < vl ! j"
    using best_of_min [OF assms(5)] by blast
  have "best_epochs h =
            Inr \<lparr>acc = Some a, val_acc = Some va, loss = h ''loss'', val_loss = Some vl,
                 epochs = py_range1 (int (length a)),
                 best_acc_epoch = int i + 1, best_acc = Max (set va),
                 best_loss_epoch = int k + 1, best_loss = Min (set vl)\<rparr>"
    using assms(1,2,4) i(1) k(1) by (simp add: best_epochs_def py_len_def)
  with i k show ?thesis by blast
qed

text \<open>
  C2. When the four metric sequences are present and non-empty, lines 4 to 15 complete,
  \<open>best_acc\<close> is the maximum of \<open>val_accuracy\<close> and \<open>best_acc_epoch\<close> is one more than an
  index at which \<open>val_accuracy\<close> holds that maximum; for \<open>[0.5, 0.9, 0.7]\<close> the epoch is 2
  and the value 0.9.
\<close>

theorem best_acc_is_max:
  assumes "h ''accuracy'' = Some a" and "a \<noteq> []"
    and "h ''val_accuracy'' = Some va" and "va \<noteq> []"
    and "h ''loss'' = Some l" and "l \<noteq> []"
    and "h ''val_loss'' = Some vl" and "vl \<noteq> []"
  shows "\<exists>b. best_epochs h = Inr b
          \<and> best_acc b = Max (set va)
          \<and> 1 \<le> best_acc_epoch b
          \<and> nat (best_acc_epoch b - 1) < length va
          \<and> va ! nat (best_acc_epoch b - 1) = Max (set va)
          \<and> (va = [0.5, 0.9, 0.7] \<longrightarrow> best_acc_epoch b = 2 \<and> best_acc b = 0.9)"
proof -
  obtain i k b where b: "best_epochs h = Inr b" "best_acc b = Max (set va)"
      "best_acc_epoch b = int i + 1" "i < length va" "va ! i = Max (set va)"
    using best_epochs_present [OF assms(1,3,4,7,8)] by force
  have "i = 1" if va: "va = [0.5, 0.9, 0.7]"
  proof -
    have m: "Max (set va) = 0.9" by (simp add: va)
    have "i < 3" using b(4) va by simp
    then consider "i = 0" | "i = 1" | "i = 2" by linarith
    then show ?thesis using b(5) m by cases (simp_all add: va)
  qed
  then have "va = [0.5, 0.9, 0.7] \<longrightarrow> best_acc_epoch b = 2 \<and> best_acc b = 0.9"
    using b(2,3) by auto
  with b show ?thesis by simp
qed

theorem best_acc_is_max_witness:
  "\<exists>b. best_epochs history_example = Inr b \<and> best_acc_epoch b = 2 \<and> best_acc b = 0.9"
  using best_acc_is_max [of history_example "[0.6, 0.8, 0.9]" "[0.5, 0.9, 0.7]"
      "[0.9, 0.4, 0.3]" "[1.0, 0.2, 0.5]"]
  by (auto simp add: history_example_def)

text \<open>
  C3. When the four metric sequences are present and non-empty, lines 4 to 15 complete,
  \<open>best_loss\<close> is the minimum of \<open>val_loss\<close> and \<open>best_loss_epoch\<close> is one more than an
  index at which \<open>val_loss\<close> holds that minimum; for \<open>[1.0, 0.2, 0.5]\<close> the epoch is 2 and
  the value 0.2.
\<close>

theorem best_loss_is_min:
  assumes "h ''accuracy'' = Some a" and "a \<noteq> []"
    and "h ''val_accuracy'' = Some va" and "va \<noteq> []"
    and "h ''loss'' = Some l" and "l \<noteq> []"
    and "h ''val_loss'' = Some vl" and "vl \<noteq> []"
  shows "\<exists>b. best_epochs h = Inr b
          \<and> best_loss b = Min (set vl)
          \<and> 1 \<le> best_loss_epoch b
          \<and> nat (best_loss_epoch b - 1) < length vl
          \<and> vl ! nat (best_loss_epoch b - 1) = Min (set vl)
          \<and> (vl = [1.0, 0.2, 0.5] \<longrightarrow> best_loss_epoch b = 2 \<and> best_loss b = 0.2)"
proof -
  obtain i k b where b: "best_epochs h = Inr b" "best_loss b = Min (set vl)"
      "best_loss_epoch b = int k + 1" "k < length vl" "vl ! k = Min (set vl)"
    using best_epochs_present [OF assms(1,3,4,7,8)] by force
  have "k = 1" if vl: "vl = [1.0, 0.2, 0.5]"
  proof -
    have m: "Min (set vl) = 0.2" by (simp add: vl)
    have "k < 3" using b(4) vl by simp
    then consider "k = 0" | "k = 1" | "k = 2" by linarith
    then show ?thesis using b(5) m by cases (simp_all add: vl)
  qed
  then have "vl = [1.0, 0.2, 0.5] \<longrightarrow> best_loss_epoch b = 2 \<and> best_loss b = 0.2"
    using b(2,3) by auto
  with b show ?thesis by simp
qed

theorem best_loss_is_min_witness:
  "\<exists>b. best_epochs history_example = Inr b \<and> best_loss_epoch b = 2 \<and> best_loss b = 0.2"
  using best_loss_is_min [of history_example "[0.6, 0.8, 0.9]" "[0.5, 0.9, 0.7]"
      "[0.9, 0.4, 0.3]" "[1.0, 0.2, 0.5]"]
  by (auto simp add: history_example_def)

text \<open>
  C9. When the maximum of \<open>val_accuracy\<close> (the minimum of \<open>val_loss\<close>) is attained at
  several epochs, the epoch selected is the earliest one: no epoch before
  \<open>best_acc_epoch\<close> (\<open>best_loss_epoch\<close>) holds the extreme value.
\<close>

theorem best_epoch_is_earliest:
  assumes "h ''accuracy'' = Some a" and "a \<noteq> []"
    and "h ''val_accuracy'' = Some va" and "va \<noteq> []"
    and "h ''loss'' = Some l" and "l \<noteq> []"
    and "h ''val_loss'' = Some vl" and "vl \<noteq> []"
  shows "\<exists>b. best_epochs h = Inr b
          \<and> va ! nat (best_acc_epoch b - 1) = Max (set va)
          \<and> (\<forall>e. 1 \<le> e \<and> e < best_acc_epoch b \<longrightarrow> va ! nat (e - 1) \<noteq> Max (set va))
          \<and> vl ! nat (best_loss_epoch b - 1) = Min (set vl)
          \<and> (\<forall>e. 1 \<le> e \<and> e < best_loss_epoch b \<longrightarrow> vl ! nat (e - 1) \<noteq> Min (set vl))"
proof -
  obtain i k b where b: "best_epochs h = Inr b"
      "best_acc_epoch b = int i + 1" "va ! i = Max (set va)" "\<forall>j<i. va ! j < Max (set va)"
      "best_loss_epoch b = int k + 1" "vl ! k = Min (set vl)" "\<forall>j<k. Min (set vl) < vl ! j"
    using best_epochs_present [OF assms(1,3,4,7,8)] by force
  have "va ! nat (e - 1) \<noteq> Max (set va)" if "1 \<le> e" "e < best_acc_epoch b" for e
  proof -
    have "nat (e - 1) < i" using that b(2) by linarith
    then show ?thesis using b(4) by fastforce
  qed
  moreover have "vl ! nat (e - 1) \<noteq> Min (set vl)" if "1 \<le> e" "e < best_loss_epoch b" for e
  proof -
    have "nat (e - 1) < k" using that b(5) by linarith
    then show ?thesis using b(7) by fastforce
  qed
  ultimately show ?thesis using b by simp
qed

theorem best_epoch_is_earliest_witness:
  "\<exists>b. best_epochs history_ties = Inr b \<and> best_acc_epoch b = 2 \<and> best_loss_epoch b = 2
     \<and> [0.5, 0.9, 0.9 :: real] ! 2 = Max (set [0.5, 0.9, 0.9])
     \<and> [0.3, 0.2, 0.2 :: real] ! 2 = Min (set [0.3, 0.2, 0.2])"
proof -
  have e: "best_epochs history_ties =
     Inr \<lparr>acc = Some [0.6, 0.8, 0.9], val_acc = Some [0.5, 0.9, 0.9],
          loss = Some [0.9, 0.4, 0.3], val_loss = Some [0.3, 0.2, 0.2],
          epochs = [1, 2, 3], best_acc_epoch = 2, best_acc = 0.9,
          best_loss_epoch = 2, best_loss = 0.2\<rparr>"
    by (simp add: history_ties_def best_epochs_def best_of_def py_max_def py_min_def
        py_len_def py_range1_def upto.simps)
  show ?thesis
    using best_epoch_is_earliest [of history_ties "[0.6, 0.8, 0.9]" "[0.5, 0.9, 0.9]"
      "[0.9, 0.4, 0.3]" "[0.3, 0.2, 0.2]"] e
    by (simp add: history_ties_def)
qed

lemma perform_takeWhile:
  "perform rejects es =
     (takeWhile (\<lambda>e. raises rejects e = None) es,
      case dropWhile (\<lambda>e. raises rejects e = None) es of [] \<Rightarrow> None | e # _ \<Rightarrow> raises rejects e)"
  by (induction es) (auto split: option.splits prod.splits)

lemma drawing_stops_at_None_loss:
  assumes "loss b = None" and "\<forall>xs. rejects xs None \<noteq> None"
  shows "\<exists>done e. perform rejects (drawing b title save_path) = (done, Some e)
          \<and> (\<forall>p d. Savefig p d \<notin> set done) \<and> Show \<notin> set done"
proof -
  have r: "rejects (epochs b) None \<noteq> None" using assms(2) by blast
  show ?thesis
    using r assms(1) by (auto simp: perform_takeWhile drawing_def)
qed

text \<open>
  C5. When one of the four metric keys is absent from the history, the render operation
  ends with an exception, and neither \<open>plt.savefig\<close> nor \<open>plt.show\<close> has been reached.
  For \<open>accuracy\<close>, \<open>val_accuracy\<close> and \<open>val_loss\<close> the exception comes from lines 8, 11
  and 14; for \<open>loss\<close> it comes from \<open>plt.plot\<close> at line 34, which is the plotting library
  rejecting \<open>None\<close>, the hypothesis on \<open>rejects\<close>.
\<close>

theorem missing_metric_aborts:
  assumes "k \<in> {''accuracy'', ''val_accuracy'', ''loss'', ''val_loss''}" and "h k = None"
    and "\<forall>xs. rejects xs None \<noteq> None"
  shows "\<exists>done e. plot_training_history_with_annotations rejects h title save_path = (done, Some e)
          \<and> (\<forall>p d. Savefig p d \<notin> set done) \<and> Show \<notin> set done"
proof (cases "best_epochs h")
  case (Inl e)
  then show ?thesis by (simp add: plot_training_history_with_annotations_def)
next
  case (Inr b)
  then have "h ''accuracy'' \<noteq> None" "h ''val_accuracy'' \<noteq> None" "h ''val_loss'' \<noteq> None"
    and l: "loss b = h ''loss''"
    by (auto simp: best_epochs_def py_len_def best_of_def Let_def
        split: option.splits sum.splits prod.splits)
  with assms(1,2) have "loss b = None" by auto
  then have "\<exists>done e. perform rejects (drawing b title save_path) = (done, Some e)
          \<and> (\<forall>p d. Savefig p d \<notin> set done) \<and> Show \<notin> set done"
    using assms(3) by (rule drawing_stops_at_None_loss)
  with Inr show ?thesis
    by (simp add: plot_training_history_with_annotations_def)
qed

theorem missing_metric_aborts_witness:
  "\<exists>done. plot_training_history_with_annotations matplotlib_rejects history_no_loss
        default_title (Some ''curves.png'') = (done, Some ValueError)
      \<and> Savefig ''curves.png'' 300 \<notin> set done \<and> Show \<notin> set done"
proof -
  have e: "\<exists>done. plot_training_history_with_annotations matplotlib_rejects history_no_loss
        default_title (Some ''curves.png'') = (done, Some ValueError)"
    by (simp add: plot_training_history_with_annotations_def history_no_loss_def
        best_epochs_def best_of_def py_max_def py_min_def py_len_def py_range1_def upto.simps
        drawing_def matplotlib_rejects_def)
  have r: "\<forall>xs. matplotlib_rejects xs None \<noteq> None" by (simp add: matplotlib_rejects_def)
  have n: "history_no_loss ''loss'' = None" by (simp add: history_no_loss_def)
  show ?thesis
    using missing_metric_aborts [of "''loss''" history_no_loss matplotlib_rejects
        default_title "Some ''curves.png''"] e r n
    by auto
qed

text \<open>
  C4. With \<open>save_path\<close> left at its default \<open>None\<close>, line 47 still calls \<open>plt.savefig\<close>,
  with the file name \<open>'None'\<close>: a chart file is written, besides the interactive display.
\<close>

theorem savefig_without_save_path:
  "\<exists>done. plot_training_history_with_annotations matplotlib_rejects history_example
        default_title None = (done, None)
      \<and> Savefig ''None'' 300 \<in> set done \<and> Show \<in> set done"
  by (simp add: plot_training_history_with_annotations_def history_example_def
        best_epochs_def best_of_def py_max_def py_min_def py_len_def py_range1_def upto.simps
        drawing_def matplotlib_rejects_def py_format_def)

section \<open>Properties of the transform\<close>


text \<open>
  C1. For an image of width \<open>W\<close> and height \<open>H\<close> and a bounding rectangle \<open>(x, y, w, h)\<close>
  with \<open>0 \<le> x\<close>, \<open>0 \<le> y\<close>, \<open>x + w \<le> W\<close>, \<open>y + h \<le> H\<close> and \<open>w, h > 0\<close>, the padded
  rectangle has a non-negative origin and strictly positive dimensions that stay inside
  the image.
\<close>

theorem pad_rect_in_bounds:
  assumes "0 \<le> x" and "0 \<le> y" and "x + w \<le> W" and "y + h \<le> H" and "0 < w" and "0 < h"
    and "pad_rect W H (x, y, w, h) = (x', y', w', h')"
  shows "0 \<le> x' \<and> 0 \<le> y' \<and> 0 < w' \<and> 0 < h' \<and> x' + w' \<le> W \<and> y' + h' \<le> H"
  using assms by (auto simp: pad_rect_def pad_def Let_def)

theorem pad_rect_in_bounds_witness:
  "pad_rect 100 80 (5, 70, 30, 10) = (0, 60, 50, 20)
   \<and> (0::int) \<le> 0 \<and> (0::int) \<le> 60 \<and> (0::int) < 50 \<and> (0::int) < 20
   \<and> (0::int) + 50 \<le> 100 \<and> (60::int) + 20 \<le> 80"
proof -
  have e: "pad_rect 100 80 (5, 70, 30, 10) = (0, 60, 50, 20)"
    by (simp add: pad_rect_def pad_def)
  show ?thesis
    using pad_rect_in_bounds [of 5 70 30 100 10 80 0 60 50 20] e by simp
qed

subsection \<open>Slices and crops\<close>




lemma max_key_loop_in: "max_key_loop k m xs \<in> set (m # xs)"
  by (induction xs arbitrary: m) (auto split: if_splits)

subsection \<open>The mask of an image without a pixel in range\<close>

lemma inRange_zero:
  assumes "\<forall>row\<in>set hsv. \<forall>p\<in>set row. \<not> in_bounds lo hi p"
  shows "\<forall>row\<in>set (inRange hsv lo hi). \<forall>v\<in>set row. v = 0"
  using assms by (auto simp: inRange_def)

lemma marker_crop_no_pixel:
  assumes "\<forall>row\<in>set (cvtColor_BGR2HSV cv img). \<forall>p\<in>set row. \<not> in_bounds lower_pink upper_pink p"
    and "\<forall>m. (\<forall>row\<in>set m. \<forall>v\<in>set row. v = 0) \<longrightarrow> findContours cv m = []"
  shows "marker_crop cv ts img = Inr None"
proof -
  have "findContours cv (inRange (cvtColor_BGR2HSV cv img) lower_pink upper_pink) = []"
    using assms(2) inRange_zero [OF assms(1)] by blast
  then show ?thesis by (simp add: marker_crop_def)
qed

text \<open>
  C6. For a readable image none of whose pixels, once converted, lies in the range
  \<open>lower_pink\<close> to \<open>upper_pink\<close>, the loop body writes no file: the state is unchanged but
  for the warning of line 51, and the loop goes on with the remaining files. That the
  library finds no contour in a mask without a non-zero value is the hypothesis on
  \<open>findContours\<close>.
\<close>

theorem no_marker_skipped:
  assumes "cv_imread cv (files st) (class_path @ [img_name]) = Some img"
    and "\<forall>row\<in>set (cvtColor_BGR2HSV cv img). \<forall>p\<in>set row. \<not> in_bounds lower_pink upper_pink p"
    and "\<forall>m. (\<forall>row\<in>set m. \<forall>v\<in>set row. v = 0) \<longrightarrow> findContours cv m = []"
  shows "process_image cv target_size class_path output_class_path img_name st =
           Inr (st\<lparr>printed := printed st @ [Warning_no_pink_box (class_path @ [img_name])]\<rparr>)
       \<and> process_images cv target_size class_path output_class_path (img_name # rest) st =
           process_images cv target_size class_path output_class_path rest
             (st\<lparr>printed := printed st @ [Warning_no_pink_box (class_path @ [img_name])]\<rparr>)"
proof -
  have "marker_crop cv target_size img = Inr None"
    using assms(2,3) by (rule marker_crop_no_pixel)
  then have "process_image cv target_size class_path output_class_path img_name st =
           Inr (st\<lparr>printed := printed st @ [Warning_no_pink_box (class_path @ [img_name])]\<rparr>)"
    using assms(1) by (simp add: process_image_def)
  then show ?thesis by simp
qed

lemma small_cv2_no_contour:
  "\<forall>m. (\<forall>row\<in>set m. \<forall>v\<in>set row. v = 0) \<longrightarrow> findContours small_cv2 m = []"
proof (intro allI impI)
  fix m :: mask
  assume z: "\<forall>row\<in>set m. \<forall>v\<in>set row. v = 0"
  have "filter (\<lambda>(x, v). v \<noteq> 0) (enumerate 0 row) = []" if "row \<in> set m" for row
  proof -
    have "\<forall>e\<in>set (enumerate 0 row). snd e = 0"
      using z that by (auto simp: in_set_enumerate_eq)
    then show ?thesis by (auto simp: filter_empty_conv)
  qed
  then have "points m = []"
    by (auto simp: points_def in_set_enumerate_eq)
  then show "findContours small_cv2 m = []" by (simp add: small_cv2_def)
qed

theorem no_marker_skipped_witness:
  "process_image small_cv2 (2, 2) [''data'', ''B''] [''out'', ''B''] ''b.png'' start =
     Inr (start\<lparr>printed := [Warning_no_pink_box [''data'', ''B'', ''b.png'']]\<rparr>)
   \<and> files (start\<lparr>printed := [Warning_no_pink_box [''data'', ''B'', ''b.png'']]\<rparr>) = dataset"
proof -
  have r: "cv_imread small_cv2 (files start) ([''data'', ''B''] @ [''b.png'']) = Some plain_image"
    by (simp add: cv_imread_def start_def dataset_def lookup_def small_cv2_def plain_image_def)
  have p: "\<forall>row\<in>set (cvtColor_BGR2HSV small_cv2 plain_image). \<forall>p\<in>set row.
             \<not> in_bounds lower_pink upper_pink p"
    by (simp add: small_cv2_def plain_image_def in_bounds_def lower_pink_def upper_pink_def grey_def)
  show ?thesis
    using no_marker_skipped [OF r p small_cv2_no_contour, of "(2, 2)" "[''out'', ''B'']" "[]"]
    by (simp add: start_def)
qed



lemma lookup_update:
  "k \<noteq> [] \<Longrightarrow> lookup (AList.update k v fs) p = (if p = k then Some v else lookup fs p)"
  by (simp add: lookup_def update_conv')


subsection \<open>The file system under the script\<close>

lemma entries_update:
  assumes "k \<in> fst ` set fs \<or> k = [] \<or> butlast k \<noteq> p"
  shows "entries (AList.update k v fs) p = entries fs p"
  using assms by (auto simp: entries_def update_keys)

lemma entries_update_subset: "set (entries fs p) \<subseteq> set (entries (AList.update k v fs) p)"
  by (auto simp: entries_def update_keys)

lemma isdir_update:
  "k \<noteq> [] \<Longrightarrow> lookup fs k \<noteq> Some Dir \<Longrightarrow> isdir fs p \<Longrightarrow> isdir (AList.update k v fs) p"
  by (auto simp: isdir_def lookup_update)

lemma same_data_refl: "same_data d fs fs"
  by (simp add: same_data_def)

lemma same_data_trans: "same_data d a b \<Longrightarrow> same_data d b c \<Longrightarrow> same_data d a c"
  by (simp add: same_data_def)

lemma same_data_update:
  assumes "k \<noteq> []" and "\<not> prefix d k"
  shows "same_data d fs (AList.update k v fs)"
proof -
  have "butlast k \<noteq> p" if "prefix d p" for p
  proof
    assume "butlast k = p"
    then have "prefix p k" by (metis prefixI append_butlast_last_id assms(1))
    with that assms(2) show False by (meson prefix_order.order_trans)
  qed
  moreover have "p \<noteq> k" if "prefix d p" for p
    using that assms(2) by auto
  ultimately show ?thesis
    using assms(1) by (simp add: same_data_def lookup_update entries_update)
qed

lemma apart_key:
  assumes "apart d o'" and "prefix k (o' @ r)"
  shows "\<not> prefix d k"
proof
  assume "prefix d k"
  then have "prefix d (o' @ r)" using assms(2) by (meson prefix_order.order_trans)
  then have "prefix d o' \<or> prefix o' d" by (auto simp: prefix_append)
  with assms(1) show False by (simp add: apart_def)
qed

lemma apart_key_append: "apart d o' \<Longrightarrow> \<not> prefix d (o' @ r)"
  by (metis apart_key prefix_order.order_refl)

subsection \<open>makedirs\<close>

lemma mkdirs_keeps:
  "mkdirs base ns fs = Inr fs' \<Longrightarrow> lookup fs p = Some v \<Longrightarrow> lookup fs' p = Some v"
proof (induction ns arbitrary: base fs)
  case Nil
  then show ?case by simp
next
  case (Cons n ns)
  show ?case
  proof (cases "lookup fs (base @ [n])")
    case None
    with Cons.prems have m: "mkdirs (base @ [n]) ns (AList.update (base @ [n]) Dir fs) = Inr fs'"
      by simp
    have "p \<noteq> base @ [n]" using None Cons.prems(2) by auto
    then have "lookup (AList.update (base @ [n]) Dir fs) p = Some v"
      using Cons.prems(2) by (simp add: lookup_update)
    with Cons.IH [OF m] show ?thesis .
  next
    case (Some node)
    with Cons.prems(1) have "mkdirs (base @ [n]) ns fs = Inr fs'"
      by (cases node) (simp_all split: if_splits)
    with Cons.IH Cons.prems(2) show ?thesis by blast
  qed
qed

lemma mkdirs_dirs_kept: "mkdirs base ns fs = Inr fs' \<Longrightarrow> isdir fs p \<Longrightarrow> isdir fs' p"
  unfolding isdir_def by (rule mkdirs_keeps)

lemma mkdirs_changes:
  "mkdirs base ns fs = Inr fs' \<Longrightarrow>
     lookup fs' p = lookup fs p
     \<or> (lookup fs' p = Some Dir \<and> (\<exists>k. 0 < k \<and> k \<le> length ns \<and> p = base @ take k ns))"
proof (induction ns arbitrary: base fs)
  case Nil
  then show ?case by simp
next
  case (Cons n ns)
  have shift: "\<exists>k. 0 < k \<and> k \<le> length (n # ns) \<and> p = base @ take k (n # ns)"
    if "\<exists>k. 0 < k \<and> k \<le> length ns \<and> p = (base @ [n]) @ take k ns"
  proof -
    from that obtain k where "0 < k" "k \<le> length ns" "p = (base @ [n]) @ take k ns" by blast
    then have "0 < Suc k \<and> Suc k \<le> length (n # ns) \<and> p = base @ take (Suc k) (n # ns)" by simp
    then show ?thesis by blast
  qed
  show ?case
  proof (cases "lookup fs (base @ [n])")
    case None
    with Cons.prems have m: "mkdirs (base @ [n]) ns (AList.update (base @ [n]) Dir fs) = Inr fs'"
      by simp
    let ?fs1 = "AList.update (base @ [n]) Dir fs"
    show ?thesis
    proof (cases "p = base @ [n]")
      case True
      have "lookup ?fs1 p = Some Dir" using True by (simp add: lookup_update)
      then have "lookup fs' p = Some Dir" using m by (rule mkdirs_keeps [rotated])
      moreover have "0 < (1::nat) \<and> 1 \<le> length (n # ns) \<and> p = base @ take 1 (n # ns)"
        using True by simp
      ultimately show ?thesis by blast
    next
      case False
      then have "lookup ?fs1 p = lookup fs p" by (simp add: lookup_update)
      with Cons.IH [OF m] shift show ?thesis by auto
    qed
  next
    case (Some node)
    with Cons.prems(1) have "mkdirs (base @ [n]) ns fs = Inr fs'"
      by (cases node) (simp_all split: if_splits)
    with Cons.IH shift show ?thesis by blast
  qed
qed

lemma mkdirs_made:
  "mkdirs base ns fs = Inr fs' \<Longrightarrow> 0 < k \<Longrightarrow> k \<le> length ns \<Longrightarrow> isdir fs' (base @ take k ns)"
proof (induction ns arbitrary: base fs k)
  case Nil
  then show ?case by simp
next
  case (Cons n ns)
  obtain fs1 where m: "mkdirs (base @ [n]) ns fs1 = Inr fs'" and d: "isdir fs1 (base @ [n])"
  proof (cases "lookup fs (base @ [n])")
    case None
    with Cons.prems(1) have "mkdirs (base @ [n]) ns (AList.update (base @ [n]) Dir fs) = Inr fs'"
      by simp
    moreover have "isdir (AList.update (base @ [n]) Dir fs) (base @ [n])"
      by (simp add: isdir_def lookup_update)
    ultimately show ?thesis using that by blast
  next
    case (Some node)
    with Cons.prems(1) have "mkdirs (base @ [n]) ns fs = Inr fs' \<and> node = Dir"
      by (cases node) (simp_all split: if_splits)
    then show ?thesis using Some that by (auto simp: isdir_def)
  qed
  show ?case
  proof (cases k)
    case 0
    with Cons.prems(2) show ?thesis by simp
  next
    case (Suc j)
    show ?thesis
    proof (cases "j = 0")
      case True
      with Suc mkdirs_dirs_kept [OF m d] show ?thesis by simp
    next
      case False
      then have "isdir fs' ((base @ [n]) @ take j ns)"
        using Cons.IH [OF m, of j] Cons.prems(3) Suc by simp
      with Suc show ?thesis by simp
    qed
  qed
qed

lemma mkdirs_noop:
  "(\<forall>k. 0 < k \<and> k \<le> length ns \<longrightarrow> isdir fs (base @ take k ns)) \<Longrightarrow> mkdirs base ns fs = Inr fs"
proof (induction ns arbitrary: base)
  case Nil
  then show ?case by simp
next
  case (Cons n ns)
  have "0 < (1::nat) \<and> 1 \<le> length (n # ns)" by simp
  then have "isdir fs (base @ take 1 (n # ns))" using Cons.prems by blast
  then have d: "lookup fs (base @ [n]) = Some Dir" by (simp add: isdir_def)
  have "isdir fs ((base @ [n]) @ take k ns)" if "0 < k \<and> k \<le> length ns" for k
  proof -
    have "0 < Suc k \<and> Suc k \<le> length (n # ns)" using that by simp
    then have "isdir fs (base @ take (Suc k) (n # ns))" using Cons.prems by blast
    then show ?thesis by simp
  qed
  then have "mkdirs (base @ [n]) ns fs = Inr fs" using Cons.IH by blast
  with d show ?case by simp
qed

lemma mkdirs_entries: "mkdirs base ns fs = Inr fs' \<Longrightarrow> set (entries fs p) \<subseteq> set (entries fs' p)"
proof (induction ns arbitrary: base fs)
  case Nil
  then show ?case by simp
next
  case (Cons n ns)
  show ?case
  proof (cases "lookup fs (base @ [n])")
    case None
    with Cons.prems have "mkdirs (base @ [n]) ns (AList.update (base @ [n]) Dir fs) = Inr fs'"
      by simp
    from Cons.IH [OF this] entries_update_subset show ?thesis by blast
  next
    case (Some node)
    with Cons.prems(1) have "mkdirs (base @ [n]) ns fs = Inr fs'"
      by (cases node) (simp_all split: if_splits)
    with Cons.IH show ?thesis by blast
  qed
qed

lemma mkdirs_same_data:
  "mkdirs base ns fs = Inr fs' \<Longrightarrow>
   (\<forall>k. 0 < k \<and> k \<le> length ns \<longrightarrow> \<not> prefix d (base @ take k ns)) \<Longrightarrow> same_data d fs fs'"
proof (induction ns arbitrary: base fs)
  case Nil
  then show ?case by (simp add: same_data_refl)
next
  case (Cons n ns)
  have key: "\<not> prefix d (base @ [n])"
  proof -
    have "0 < (1::nat) \<and> 1 \<le> length (n # ns)" by simp
    then have "\<not> prefix d (base @ take 1 (n # ns))" using Cons.prems(2) by blast
    then show ?thesis by simp
  qed
  have rest: "\<forall>k. 0 < k \<and> k \<le> length ns \<longrightarrow> \<not> prefix d ((base @ [n]) @ take k ns)"
  proof (intro allI impI)
    fix k assume "0 < k \<and> k \<le> length ns"
    then have "0 < Suc k \<and> Suc k \<le> length (n # ns)" by simp
    then have "\<not> prefix d (base @ take (Suc k) (n # ns))"
      using Cons.prems(2) by blast
    then show "\<not> prefix d ((base @ [n]) @ take k ns)" by simp
  qed
  show ?case
  proof (cases "lookup fs (base @ [n])")
    case None
    with Cons.prems have m: "mkdirs (base @ [n]) ns (AList.update (base @ [n]) Dir fs) = Inr fs'"
      by simp
    have "same_data d fs (AList.update (base @ [n]) Dir fs)"
      using key by (simp add: same_data_update)
    from this Cons.IH [OF m rest] show ?thesis by (rule same_data_trans)
  next
    case (Some node)
    with Cons.prems(1) have "mkdirs (base @ [n]) ns fs = Inr fs'"
      by (cases node) (simp_all split: if_splits)
    with Cons.IH rest show ?thesis by blast
  qed
qed

subsection \<open>Steps of the script\<close>

lemma cv_imread_same_data:
  "same_data d fs fs' \<Longrightarrow> prefix d p \<Longrightarrow> cv_imread cv fs p = cv_imread cv fs' p"
  by (simp add: same_data_def cv_imread_def)

lemma expected_same_data:
  "same_data d fs fs' \<Longrightarrow>
     expected cv ts fs (d @ [c]) (o' @ [c]) n = expected cv ts fs' (d @ [c]) (o' @ [c]) n"
  using cv_imread_same_data [of d fs fs' "(d @ [c]) @ [n]" cv] by (simp add: expected_def)

lemma evolves_refl: "evolves cv ts d o' fs fs"
  by (simp add: evolves_def same_data_refl)

lemma evolves_trans:
  assumes "evolves cv ts d o' a b" and "evolves cv ts d o' b c"
  shows "evolves cv ts d o' a c"
proof -
  have sd: "same_data d a b" "same_data d b c" using assms by (simp_all add: evolves_def)
  have "lookup c (o' @ [k, n]) = lookup a (o' @ [k, n])
          \<or> (\<exists>x. expected cv ts a (d @ [k]) (o' @ [k]) n = Some x \<and> lookup c (o' @ [k, n]) = Some (File x))"
    for k n
  proof -
    have 1: "lookup b (o' @ [k, n]) = lookup a (o' @ [k, n])
          \<or> (\<exists>x. expected cv ts a (d @ [k]) (o' @ [k]) n = Some x \<and> lookup b (o' @ [k, n]) = Some (File x))"
      using assms(1) by (simp add: evolves_def)
    have 2: "lookup c (o' @ [k, n]) = lookup b (o' @ [k, n])
          \<or> (\<exists>x. expected cv ts a (d @ [k]) (o' @ [k]) n = Some x \<and> lookup c (o' @ [k, n]) = Some (File x))"
      using assms(2) expected_same_data [OF sd(1), of cv ts k o' n] by (simp add: evolves_def)
    from 1 2 show ?thesis by auto
  qed
  moreover have "\<forall>p. isdir a p \<longrightarrow> isdir c p" using assms by (simp add: evolves_def)
  ultimately show ?thesis using same_data_trans [OF sd] by (simp add: evolves_def)
qed

lemma makedirs_evolves:
  assumes m: "makedirs (o' @ r) fs = Inr fs'" and a: "apart d o'" and r: "length r \<le> 1"
  shows "evolves cv ts d o' fs fs'"
proof -
  have mk: "mkdirs [] (o' @ r) fs = Inr fs'" using m by (simp add: makedirs_def)
  have "\<not> prefix d ([] @ take k (o' @ r))" for k
    using apart_key [OF a, of "take k (o' @ r)" r] by (metis append_Nil take_is_prefix)
  then have "\<forall>k. 0 < k \<and> k \<le> length (o' @ r) \<longrightarrow> \<not> prefix d ([] @ take k (o' @ r))"
    by blast
  with mk have "same_data d fs fs'" by (rule mkdirs_same_data)
  moreover have "\<forall>p. isdir fs p \<longrightarrow> isdir fs' p" using mk mkdirs_dirs_kept by blast
  moreover have "lookup fs' (o' @ [c, n]) = lookup fs (o' @ [c, n])" for c n
  proof -
    have "o' @ [c, n] \<noteq> [] @ take k (o' @ r)" for k
    proof
      assume "o' @ [c, n] = [] @ take k (o' @ r)"
      then have "length (o' @ [c, n]) = length (take k (o' @ r))" by simp
      then show False using r by simp
    qed
    with mkdirs_changes [OF mk, of "o' @ [c, n]"] show ?thesis by blast
  qed
  ultimately show ?thesis by (simp add: evolves_def)
qed

lemma image_rerun:
  assumes "process_image cv ts (d @ [c]) (o' @ [c]) n s = Inr s'"
    and "cv_imread cv (files x) (d @ [c, n]) = cv_imread cv (files s) (d @ [c, n])"
  shows "\<exists>x'. process_image cv ts (d @ [c]) (o' @ [c]) n x = Inr x'
           \<and> files x' =
               (case expected cv ts (files s) (d @ [c]) (o' @ [c]) n of
                  None \<Rightarrow> files x
                | Some b \<Rightarrow>
                    if isdir (files x) (o' @ [c]) \<and> lookup (files x) (o' @ [c, n]) \<noteq> Some Dir
                    then AList.update (o' @ [c, n]) (File b) (files x) else files x)"
  using assms
  by (auto simp: process_image_def expected_def cv_imwrite_def
      split: option.splits sum.splits if_splits)

lemma image_files:
  assumes "process_image cv ts (d @ [c]) (o' @ [c]) n s = Inr s'"
  shows "files s' =
               (case expected cv ts (files s) (d @ [c]) (o' @ [c]) n of
                  None \<Rightarrow> files s
                | Some b \<Rightarrow>
                    if isdir (files s) (o' @ [c]) \<and> lookup (files s) (o' @ [c, n]) \<noteq> Some Dir
                    then AList.update (o' @ [c, n]) (File b) (files s) else files s)"
  using image_rerun [OF assms, of s] assms by auto

lemma image_dirs_kept:
  assumes "process_image cv ts (d @ [c]) (o' @ [c]) n s = Inr s'" and "isdir (files s) p"
  shows "isdir (files s') p"
  using image_files [OF assms(1)] assms(2)
  by (auto simp: isdir_update split: option.splits if_splits)

lemma image_evolves:
  assumes p: "process_image cv ts (d @ [c]) (o' @ [c]) n s = Inr s'" and a: "apart d o'"
  shows "evolves cv ts d o' (files s) (files s')"
proof (cases "files s' = files s")
  case True
  then show ?thesis by (simp add: evolves_refl)
next
  case False
  let ?k = "o' @ [c, n]"
  from False image_files [OF p] obtain b where
      b: "expected cv ts (files s) (d @ [c]) (o' @ [c]) n = Some b" "lookup (files s) ?k \<noteq> Some Dir"
        "files s' = AList.update ?k (File b) (files s)"
    by (auto split: option.splits if_splits)
  have "same_data d (files s) (files s')"
    using a b(3) by (simp add: same_data_update apart_key_append)
  moreover have "\<forall>p. isdir (files s) p \<longrightarrow> isdir (files s') p"
    using b(2,3) by (simp add: isdir_update)
  moreover have "lookup (files s') (o' @ [c', n']) = lookup (files s) (o' @ [c', n'])
          \<or> (\<exists>x. expected cv ts (files s) (d @ [c']) (o' @ [c']) n' = Some x
                 \<and> lookup (files s') (o' @ [c', n']) = Some (File x))" for c' n'
    using b(1,3) by (auto simp: lookup_update)
  ultimately show ?thesis by (simp add: evolves_def)
qed

lemma image_noop:
  assumes p: "process_image cv ts (d @ [c]) (o' @ [c]) n s = Inr s'" and a: "apart d o'"
    and od: "isdir (files s) (o' @ [c])"
    and e: "evolves cv ts d o' (files s') (files x)"
  shows "\<exists>x'. process_image cv ts (d @ [c]) (o' @ [c]) n x = Inr x' \<and> files x' = files x"
proof -
  let ?k = "o' @ [c, n]"
  have ss': "same_data d (files s) (files s')"
    using image_evolves [OF p a] by (simp add: evolves_def)
  have s'x: "same_data d (files s') (files x)" using e by (simp add: evolves_def)
  have "cv_imread cv (files x) (d @ [c, n]) = cv_imread cv (files s) (d @ [c, n])"
    using cv_imread_same_data [OF same_data_trans [OF ss' s'x], of "d @ [c, n]" cv] by simp
  from image_rerun [OF p this] obtain x' where
      x': "process_image cv ts (d @ [c]) (o' @ [c]) n x = Inr x'"
      "files x' =
               (case expected cv ts (files s) (d @ [c]) (o' @ [c]) n of
                  None \<Rightarrow> files x
                | Some b \<Rightarrow>
                    if isdir (files x) (o' @ [c]) \<and> lookup (files x) ?k \<noteq> Some Dir
                    then AList.update ?k (File b) (files x) else files x)"
    by blast
  have "files x' = files x"
  proof (cases "expected cv ts (files s) (d @ [c]) (o' @ [c]) n")
    case None
    with x'(2) show ?thesis by simp
  next
    case (Some b)
    show ?thesis
    proof (cases "lookup (files s) ?k = Some Dir")
      case True
      then have "isdir (files s') ?k" using image_dirs_kept [OF p] by (simp add: isdir_def)
      then have "isdir (files x) ?k" using e by (simp add: evolves_def)
      then show ?thesis using x'(2) Some by (simp add: isdir_def)
    next
      case False
      then have "files s' = AList.update ?k (File b) (files s)"
        using image_files [OF p] Some od by simp
      then have l: "lookup (files s') ?k = Some (File b)" by (simp add: lookup_update)
      have "expected cv ts (files s') (d @ [c]) (o' @ [c]) n = Some b"
        using expected_same_data [OF ss', of cv ts c o' n] Some by simp
      moreover have "lookup (files x) ?k = lookup (files s') ?k
          \<or> (\<exists>y. expected cv ts (files s') (d @ [c]) (o' @ [c]) n = Some y
                 \<and> lookup (files x) ?k = Some (File y))"
        using e unfolding evolves_def by blast
      ultimately have "lookup (files x) ?k = Some (File b)"
        using l by auto
      then have "map_of (files x) ?k = Some (File b)" by (simp add: lookup_def)
      then have "AList.update ?k (File b) (files x) = files x" by (rule update_triv)
      then show ?thesis using x'(2) Some by simp
    qed
  qed
  with x'(1) show ?thesis by blast
qed

lemma images_dirs_kept:
  "process_images cv ts (d @ [c]) (o' @ [c]) ns s = Inr s' \<Longrightarrow> isdir (files s) p
     \<Longrightarrow> isdir (files s') p"
proof (induction ns arbitrary: s)
  case Nil
  then show ?case by simp
next
  case (Cons n ns)
  from Cons.prems(1) obtain s1 where
      1: "process_image cv ts (d @ [c]) (o' @ [c]) n s = Inr s1"
      and 2: "process_images cv ts (d @ [c]) (o' @ [c]) ns s1 = Inr s'"
    by (auto split: sum.splits)
  from image_dirs_kept [OF 1 Cons.prems(2)] Cons.IH [OF 2] show ?case by blast
qed

lemma images_settle:
  assumes "process_images cv ts (d @ [c]) (o' @ [c]) ns s = Inr s'" and "apart d o'"
    and "isdir (files s) (o' @ [c])"
  shows "evolves cv ts d o' (files s) (files s')
       \<and> (\<forall>x. evolves cv ts d o' (files s') (files x) \<longrightarrow>
             (\<exists>x'. process_images cv ts (d @ [c]) (o' @ [c]) ns x = Inr x' \<and> files x' = files x))"
  using assms
proof (induction ns arbitrary: s)
  case Nil
  then show ?case by (simp add: evolves_refl)
next
  case (Cons n ns)
  from Cons.prems(1) obtain s1 where
      1: "process_image cv ts (d @ [c]) (o' @ [c]) n s = Inr s1"
      and 2: "process_images cv ts (d @ [c]) (o' @ [c]) ns s1 = Inr s'"
    by (auto split: sum.splits)
  have e1: "evolves cv ts d o' (files s) (files s1)" using 1 Cons.prems(2) by (rule image_evolves)
  have d1: "isdir (files s1) (o' @ [c])" using 1 Cons.prems(3) by (rule image_dirs_kept)
  from Cons.IH [OF 2 Cons.prems(2) d1] have
      e2: "evolves cv ts d o' (files s1) (files s')"
      and n2: "\<And>x. evolves cv ts d o' (files s') (files x) \<Longrightarrow>
             \<exists>x'. process_images cv ts (d @ [c]) (o' @ [c]) ns x = Inr x' \<and> files x' = files x"
    by blast+
  have "\<exists>x'. process_images cv ts (d @ [c]) (o' @ [c]) (n # ns) x = Inr x' \<and> files x' = files x"
    if ex: "evolves cv ts d o' (files s') (files x)" for x
  proof -
    have "evolves cv ts d o' (files s1) (files x)" using e2 ex by (rule evolves_trans)
    from image_noop [OF 1 Cons.prems(2,3) this] obtain x1 where
        x1: "process_image cv ts (d @ [c]) (o' @ [c]) n x = Inr x1" "files x1 = files x"
      by blast
    from n2 [of x1] ex x1(2) obtain x' where
        "process_images cv ts (d @ [c]) (o' @ [c]) ns x1 = Inr x'" "files x' = files x1"
      by auto
    with x1 show ?thesis by simp
  qed
  with evolves_trans [OF e1 e2] show ?case by blast
qed

lemma makedirs_made:
  assumes "makedirs p fs = Inr fs'"
  shows "isdir fs' p" and "\<forall>k. 0 < k \<and> k \<le> length p \<longrightarrow> isdir fs' ([] @ take k p)"
proof -
  have m: "mkdirs [] p fs = Inr fs'" using assms by (simp add: makedirs_def)
  show "\<forall>k. 0 < k \<and> k \<le> length p \<longrightarrow> isdir fs' ([] @ take k p)"
    using mkdirs_made [OF m] by blast
  show "isdir fs' p"
  proof (cases "p = []")
    case True
    then show ?thesis by (simp add: isdir_def lookup_def)
  next
    case False
    then have "isdir fs' ([] @ take (length p) p)" using mkdirs_made [OF m, of "length p"] by simp
    then show ?thesis by simp
  qed
qed

lemma makedirs_noop:
  assumes "\<forall>k. 0 < k \<and> k \<le> length p \<longrightarrow> isdir fs ([] @ take k p)"
  shows "makedirs p fs = Inr fs"
  using mkdirs_noop [OF assms] by (simp add: makedirs_def)

lemma makedirs_dirs_kept: "makedirs p fs = Inr fs' \<Longrightarrow> isdir fs q \<Longrightarrow> isdir fs' q"
  by (simp add: makedirs_def mkdirs_dirs_kept)

lemma listdir_entries: "listdir fs p = Inr names \<Longrightarrow> names = entries fs p \<and> isdir fs p"
  by (auto simp: listdir_def isdir_def split: option.splits node.splits)

lemma listdir_isdir: "isdir fs p \<Longrightarrow> listdir fs p = Inr (entries fs p)"
  by (simp add: listdir_def isdir_def)

lemma same_data_isdir: "same_data d fs fs' \<Longrightarrow> prefix d p \<Longrightarrow> isdir fs p = isdir fs' p"
  by (simp add: same_data_def isdir_def)

lemma same_data_entries: "same_data d fs fs' \<Longrightarrow> prefix d p \<Longrightarrow> entries fs p = entries fs' p"
  by (simp add: same_data_def)

lemma process_class_cases:
  assumes "process_class cv ts d o' c s = Inr s'"
  obtains (skip) "\<not> isdir (files s) (d @ [c])" "s' = s"
  | (run) fs1 where "isdir (files s) (d @ [c])" "makedirs (o' @ [c]) (files s) = Inr fs1"
      "isdir fs1 (d @ [c])"
      "process_images cv ts (d @ [c]) (o' @ [c]) (entries fs1 (d @ [c])) (s\<lparr>files := fs1\<rparr>) = Inr s'"
proof (cases "isdir (files s) (d @ [c])")
  case False
  then have "s' = s" using assms by (simp add: process_class_def)
  with False show ?thesis by (rule skip)
next
  case True
  with assms obtain fs1 names where
      m: "makedirs (o' @ [c]) (files s) = Inr fs1" and l: "listdir fs1 (d @ [c]) = Inr names"
      and p: "process_images cv ts (d @ [c]) (o' @ [c]) names (s\<lparr>files := fs1\<rparr>) = Inr s'"
    by (auto simp: process_class_def Let_def split: sum.splits)
  have n: "names = entries fs1 (d @ [c])" and i: "isdir fs1 (d @ [c])"
    using listdir_entries [OF l] by simp_all
  show ?thesis using True m i p [unfolded n] by (rule run)
qed

lemma class_dirs_kept:
  assumes "process_class cv ts d o' c s = Inr s'" and "isdir (files s) p"
  shows "isdir (files s') p"
  using assms(1)
proof (cases rule: process_class_cases)
  case skip
  with assms(2) show ?thesis by simp
next
  case (run fs1)
  have "isdir (files (s\<lparr>files := fs1\<rparr>)) p" using makedirs_dirs_kept [OF run(2) assms(2)] by simp
  with run(4) show ?thesis by (rule images_dirs_kept)
qed

lemma class_makes_dir:
  assumes "process_class cv ts d o' c s = Inr s'" and "isdir (files s) (d @ [c])"
  shows "isdir (files s') (o' @ [c])"
  using assms(1)
proof (cases rule: process_class_cases)
  case skip
  with assms(2) show ?thesis by simp
next
  case (run fs1)
  have "isdir (files (s\<lparr>files := fs1\<rparr>)) (o' @ [c])" using makedirs_made(1) [OF run(2)] by simp
  with run(4) show ?thesis by (rule images_dirs_kept)
qed

lemma class_settle:
  assumes p: "process_class cv ts d o' c s = Inr s'" and a: "apart d o'"
  shows "evolves cv ts d o' (files s) (files s')
       \<and> (\<forall>x. evolves cv ts d o' (files s') (files x) \<longrightarrow>
             (\<exists>x'. process_class cv ts d o' c x = Inr x' \<and> files x' = files x))"
  using p
proof (cases rule: process_class_cases)
  case skip
  have "\<exists>x'. process_class cv ts d o' c x = Inr x' \<and> files x' = files x"
    if "evolves cv ts d o' (files s') (files x)" for x
  proof -
    have "same_data d (files s) (files x)" using that skip(2) by (simp add: evolves_def)
    then have "\<not> isdir (files x) (d @ [c])"
      using skip(1) same_data_isdir [of d "files s" "files x" "d @ [c]"] by simp
    then show ?thesis by (simp add: process_class_def)
  qed
  with skip(2) show ?thesis by (simp add: evolves_refl)
next
  case (run fs1)
  let ?s1 = "s\<lparr>files := fs1\<rparr>"
  have e1: "evolves cv ts d o' (files s) fs1"
    using run(2) a by (rule makedirs_evolves) simp
  have od: "isdir (files ?s1) (o' @ [c])" using makedirs_made(1) [OF run(2)] by simp
  from images_settle [OF run(4) a od] have
      e2: "evolves cv ts d o' fs1 (files s')"
      and n2: "\<And>x. evolves cv ts d o' (files s') (files x) \<Longrightarrow>
             \<exists>x'. process_images cv ts (d @ [c]) (o' @ [c]) (entries fs1 (d @ [c])) x = Inr x'
                 \<and> files x' = files x"
    by simp_all
  have "\<exists>x'. process_class cv ts d o' c x = Inr x' \<and> files x' = files x"
    if ex: "evolves cv ts d o' (files s') (files x)" for x
  proof -
    have e1x: "evolves cv ts d o' fs1 (files x)" using e2 ex by (rule evolves_trans)
    then have sd: "same_data d fs1 (files x)" and dk: "\<forall>p. isdir fs1 p \<longrightarrow> isdir (files x) p"
      by (simp_all add: evolves_def)
    have cd: "isdir (files x) (d @ [c])" using dk run(3) by blast
    have "\<forall>k. 0 < k \<and> k \<le> length (o' @ [c]) \<longrightarrow> isdir (files x) ([] @ take k (o' @ [c]))"
      using makedirs_made(2) [OF run(2)] dk by blast
    then have mk: "makedirs (o' @ [c]) (files x) = Inr (files x)" by (rule makedirs_noop)
    have en: "entries (files x) (d @ [c]) = entries fs1 (d @ [c])"
      using same_data_entries [OF sd, of "d @ [c]"] by simp
    have l: "listdir (files x) (d @ [c]) = Inr (entries fs1 (d @ [c]))"
      using listdir_isdir [OF cd] en by simp
    from n2 [OF ex] obtain x' where
        "process_images cv ts (d @ [c]) (o' @ [c]) (entries fs1 (d @ [c])) x = Inr x'"
        "files x' = files x"
      by blast
    then show ?thesis using cd mk l by (simp add: process_class_def)
  qed
  with evolves_trans [OF e1 e2] show ?thesis by blast
qed

lemma classes_dirs_kept:
  "process_classes cv ts d o' cs s = Inr s' \<Longrightarrow> isdir (files s) p \<Longrightarrow> isdir (files s') p"
proof (induction cs arbitrary: s)
  case Nil
  then show ?case by simp
next
  case (Cons c cs)
  from Cons.prems(1) obtain s1 where
      1: "process_class cv ts d o' c s = Inr s1"
      and 2: "process_classes cv ts d o' cs s1 = Inr s'"
    by (auto split: sum.splits)
  from class_dirs_kept [OF 1 Cons.prems(2)] Cons.IH [OF 2] show ?case by blast
qed

lemma classes_make_dir:
  "process_classes cv ts d o' cs s = Inr s' \<Longrightarrow> c \<in> set cs \<Longrightarrow> isdir (files s) (d @ [c])
     \<Longrightarrow> isdir (files s') (o' @ [c])"
proof (induction cs arbitrary: s)
  case Nil
  then show ?case by simp
next
  case (Cons a cs)
  from Cons.prems(1) obtain s1 where
      1: "process_class cv ts d o' a s = Inr s1"
      and 2: "process_classes cv ts d o' cs s1 = Inr s'"
    by (auto split: sum.splits)
  have d1: "isdir (files s1) (d @ [c])" using 1 Cons.prems(3) by (rule class_dirs_kept)
  show ?case
  proof (cases "c = a")
    case True
    then have "isdir (files s1) (o' @ [c])" using class_makes_dir [OF 1] Cons.prems(3) by simp
    with 2 show ?thesis by (rule classes_dirs_kept)
  next
    case False
    then have "c \<in> set cs" using Cons.prems(2) by simp
    with Cons.IH [OF 2 _ d1] show ?thesis by blast
  qed
qed

lemma classes_settle:
  assumes "process_classes cv ts d o' cs s = Inr s'" and "apart d o'"
  shows "evolves cv ts d o' (files s) (files s')
       \<and> (\<forall>x. evolves cv ts d o' (files s') (files x) \<longrightarrow>
             (\<exists>x'. process_classes cv ts d o' cs x = Inr x' \<and> files x' = files x))"
  using assms
proof (induction cs arbitrary: s)
  case Nil
  then show ?case by (simp add: evolves_refl)
next
  case (Cons c cs)
  from Cons.prems(1) obtain s1 where
      1: "process_class cv ts d o' c s = Inr s1"
      and 2: "process_classes cv ts d o' cs s1 = Inr s'"
    by (auto split: sum.splits)
  from class_settle [OF 1 Cons.prems(2)] have
      e1: "evolves cv ts d o' (files s) (files s1)"
      and n1: "\<And>x. evolves cv ts d o' (files s1) (files x) \<Longrightarrow>
             \<exists>x'. process_class cv ts d o' c x = Inr x' \<and> files x' = files x"
    by blast+
  from Cons.IH [OF 2 Cons.prems(2)] have
      e2: "evolves cv ts d o' (files s1) (files s')"
      and n2: "\<And>x. evolves cv ts d o' (files s') (files x) \<Longrightarrow>
             \<exists>x'. process_classes cv ts d o' cs x = Inr x' \<and> files x' = files x"
    by blast+
  have "\<exists>x'. process_classes cv ts d o' (c # cs) x = Inr x' \<and> files x' = files x"
    if ex: "evolves cv ts d o' (files s') (files x)" for x
  proof -
    have "evolves cv ts d o' (files s1) (files x)" using e2 ex by (rule evolves_trans)
    from n1 [OF this] obtain x1 where
        x1: "process_class cv ts d o' c x = Inr x1" "files x1 = files x"
      by blast
    from n2 [of x1] ex x1(2) obtain x' where
        "process_classes cv ts d o' cs x1 = Inr x'" "files x' = files x1"
      by auto
    with x1 show ?thesis by simp
  qed
  with evolves_trans [OF e1 e2] show ?case by blast
qed

lemma preprocess_cases:
  assumes "preprocess_dataset cv d o' ts s = Inr s'"
  obtains fs0 s1 where "makedirs o' (files s) = Inr fs0" "isdir fs0 d"
      "process_classes cv ts d o' (sort (entries fs0 d)) (s\<lparr>files := fs0\<rparr>) = Inr s1"
      "s' = s1\<lparr>printed := printed s1 @ [Complete]\<rparr>"
proof -
  from assms obtain fs0 names s1 where
      m: "makedirs o' (files s) = Inr fs0" and l: "listdir fs0 d = Inr names"
      and p: "process_classes cv ts d o' (sort names) (s\<lparr>files := fs0\<rparr>) = Inr s1"
      and f: "s' = s1\<lparr>printed := printed s1 @ [Complete]\<rparr>"
    by (auto simp: preprocess_dataset_def split: sum.splits)
  have n: "names = entries fs0 d" and i: "isdir fs0 d"
    using listdir_entries [OF l] by simp_all
  show ?thesis using m i p [unfolded n] f by (rule that)
qed

lemma preprocess_settle:
  assumes p: "preprocess_dataset cv d o' ts s = Inr s'" and a: "apart d o'"
  shows "evolves cv ts d o' (files s) (files s')
       \<and> (\<forall>x. evolves cv ts d o' (files s') (files x) \<longrightarrow>
             (\<exists>x'. preprocess_dataset cv d o' ts x = Inr x' \<and> files x' = files x))"
  using p
proof (cases rule: preprocess_cases)
  case (1 fs0 s1)
  let ?s0 = "s\<lparr>files := fs0\<rparr>"
  have e0: "evolves cv ts d o' (files s) fs0"
    using makedirs_evolves [of o' "[]" "files s" fs0 d cv ts] 1(1) a by simp
  from classes_settle [OF 1(3) a] have
      e1: "evolves cv ts d o' fs0 (files s1)"
      and n1: "\<And>x. evolves cv ts d o' (files s1) (files x) \<Longrightarrow>
             \<exists>x'. process_classes cv ts d o' (sort (entries fs0 d)) x = Inr x' \<and> files x' = files x"
    by simp_all
  have fs: "files s' = files s1" using 1(4) by simp
  have "\<exists>x'. preprocess_dataset cv d o' ts x = Inr x' \<and> files x' = files x"
    if ex: "evolves cv ts d o' (files s') (files x)" for x
  proof -
    have ex1: "evolves cv ts d o' (files s1) (files x)" using ex fs by simp
    have e0x: "evolves cv ts d o' fs0 (files x)" using e1 ex1 by (rule evolves_trans)
    then have sd: "same_data d fs0 (files x)" and dk: "\<forall>p. isdir fs0 p \<longrightarrow> isdir (files x) p"
      by (simp_all add: evolves_def)
    have "\<forall>k. 0 < k \<and> k \<le> length o' \<longrightarrow> isdir (files x) ([] @ take k o')"
      using makedirs_made(2) [OF 1(1)] dk by blast
    then have mk: "makedirs o' (files x) = Inr (files x)" by (rule makedirs_noop)
    have dd: "isdir (files x) d" using dk 1(2) by blast
    have en: "entries (files x) d = entries fs0 d"
      using same_data_entries [OF sd, of d] by simp
    have l: "listdir (files x) d = Inr (entries fs0 d)"
      using listdir_isdir [OF dd] en by simp
    from n1 [OF ex1] obtain x1 where
        "process_classes cv ts d o' (sort (entries fs0 d)) x = Inr x1" "files x1 = files x"
      by blast
    then show ?thesis using mk l by (simp add: preprocess_dataset_def)
  qed
  with evolves_trans [OF e0 e1] fs show ?thesis by simp
qed

subsection \<open>A marked image in a run\<close>






subsection \<open>Whole runs\<close>

lemma small_run:
  "preprocess_dataset small_cv2 [''data''] [''out''] (2, 2) start = Inr processed"
  by code_simp

text \<open>
  C8. Running the script a second time, on the file system that a completed first run
  left, with the same arguments, completes and leaves every file as it is: each output
  image is written again with the content it already has. The input data set is fixed
  between the runs in that \<open>output_dir\<close> is neither at or below \<open>data_dir\<close> nor above it, so
  that the script does not write where it reads; the library functions are functions of
  their arguments.
\<close>

theorem rerun_identical:
  assumes "preprocess_dataset cv data_dir output_dir target_size st = Inr st1"
    and "apart data_dir output_dir"
  shows "\<exists>st2. preprocess_dataset cv data_dir output_dir target_size st1 = Inr st2
           \<and> files st2 = files st1"
proof -
  have "evolves cv target_size data_dir output_dir (files st1) (files st1)"
    by (rule evolves_refl)
  with preprocess_settle [OF assms] show ?thesis by blast
qed

theorem rerun_identical_witness:
  "\<exists>st2. preprocess_dataset small_cv2 [''data''] [''out''] (2, 2) start = Inr processed
      \<and> preprocess_dataset small_cv2 [''data''] [''out''] (2, 2) processed = Inr st2
      \<and> files st2 = files processed"
proof -
  have a: "apart [''data''] [''out'']" by (simp add: apart_def)
  from rerun_identical [OF small_run a] small_run show ?thesis by simp
qed

text \<open>
  C10. After a completed run the output directory of every class subdirectory of
  \<open>data_dir\<close> exists, whatever its images are: line 23 comes before the inner loop. When
  every image of the class is unreadable or without a contour (and the script does not
  write where it reads), no location \<open>output_dir/class_name/n\<close> has changed, so a directory
  that the run created is empty.
\<close>

theorem class_directory_created:
  assumes run: "preprocess_dataset cv data_dir output_dir target_size st = Inr st'"
    and cls: "class_name \<in> set (entries (files st) data_dir)"
      "isdir (files st) (data_dir @ [class_name])"
  shows "isdir (files st') (output_dir @ [class_name])
       \<and> (apart data_dir output_dir
            \<and> (\<forall>n img. cv_imread cv (files st) (data_dir @ [class_name, n]) = Some img \<longrightarrow>
                  findContours cv (inRange (cvtColor_BGR2HSV cv img) lower_pink upper_pink) = [])
          \<longrightarrow> (\<forall>n. lookup (files st') (output_dir @ [class_name, n])
                     = lookup (files st) (output_dir @ [class_name, n])))"
proof
  from run show "isdir (files st') (output_dir @ [class_name])"
  proof (cases rule: preprocess_cases)
    case (1 fs0 s1)
    have "set (entries (files st) data_dir) \<subseteq> set (entries fs0 data_dir)"
      using 1(1) by (simp add: makedirs_def mkdirs_entries)
    then have "class_name \<in> set (sort (entries fs0 data_dir))" using cls(1) by auto
    moreover have "isdir (files (st\<lparr>files := fs0\<rparr>)) (data_dir @ [class_name])"
      using makedirs_dirs_kept [OF 1(1) cls(2)] by simp
    ultimately have "isdir (files s1) (output_dir @ [class_name])"
      using 1(3) classes_make_dir by blast
    with 1(4) show ?thesis by simp
  qed
next
  show "apart data_dir output_dir
            \<and> (\<forall>n img. cv_imread cv (files st) (data_dir @ [class_name, n]) = Some img \<longrightarrow>
                  findContours cv (inRange (cvtColor_BGR2HSV cv img) lower_pink upper_pink) = [])
          \<longrightarrow> (\<forall>n. lookup (files st') (output_dir @ [class_name, n])
                     = lookup (files st) (output_dir @ [class_name, n]))"
  proof (intro impI allI, elim conjE)
    fix n
    assume a: "apart data_dir output_dir"
      and b: "\<forall>n img. cv_imread cv (files st) (data_dir @ [class_name, n]) = Some img \<longrightarrow>
                  findContours cv (inRange (cvtColor_BGR2HSV cv img) lower_pink upper_pink) = []"
    have "expected cv target_size (files st) (data_dir @ [class_name])
            (output_dir @ [class_name]) n = None"
      using b by (auto simp: expected_def marker_crop_def split: option.splits)
    moreover have "evolves cv target_size data_dir output_dir (files st) (files st')"
      using preprocess_settle [OF run a] by blast
    ultimately show "lookup (files st') (output_dir @ [class_name, n])
                     = lookup (files st) (output_dir @ [class_name, n])"
      unfolding evolves_def by (metis option.distinct(1))
  qed
qed

theorem class_directory_created_witness:
  "preprocess_dataset small_cv2 [''data''] [''out''] (2, 2) start = Inr processed
   \<and> isdir (files processed) ([''out''] @ [''B''])
   \<and> (\<forall>n. lookup (files processed) ([''out''] @ [''B'', n]) = None)"
proof -
  have c: "''B'' \<in> set (entries (files start) [''data''])" "isdir (files start) ([''data''] @ [''B''])"
    by (simp_all add: entries_def start_def dataset_def isdir_def lookup_def)
  have a: "apart [''data''] [''out'']" by (simp add: apart_def)
  have p: "findContours small_cv2 (inRange (cvtColor_BGR2HSV small_cv2 plain_image)
             lower_pink upper_pink) = []"
    by code_simp
  have b: "\<forall>n img. cv_imread small_cv2 (files start) ([''data''] @ [''B'', n]) = Some img \<longrightarrow>
             findContours small_cv2 (inRange (cvtColor_BGR2HSV small_cv2 img)
               lower_pink upper_pink) = []"
    using p by (auto simp: cv_imread_def start_def dataset_def lookup_def small_cv2_def
        split: if_splits)
  have l: "lookup (files start) ([''out''] @ [''B'', n]) = None" for n
    by (simp add: start_def dataset_def lookup_def)
  show ?thesis
    using class_directory_created [OF small_run c] a b l small_run by simp
qed

end
